theory Spec2Isabelle
  imports Main "HOL-Library.Word" "HOL-Library.Multiset"
begin

section \<open>Data model\<close>

text \<open>
  Block numbers are Go \<^verbatim>\<open>uint64\<close> values: addition wraps around at \<open>2 ^ 64\<close>.
  \<^verbatim>\<open>common.Address\<close> is a 20-byte array and \<^verbatim>\<open>common.Hash\<close> a 32-byte array.
\<close>

type_synonym u64 = "64 word"
type_synonym Address = "160 word"
type_synonym Hash = "256 word"

text \<open>
  Modelled from the spec: the declaration of the struct \<^verbatim>\<open>Log\<close> is not part of
  \<^verbatim>\<open>bench_ethgetlogs.go\<close>. The code reads the fields \<^verbatim>\<open>Address\<close>, \<^verbatim>\<open>Topics\<close> and
  \<^verbatim>\<open>Index\<close> (converted with \<^verbatim>\<open>uint64(...)\<close>); the spec describes a log entry as an
  emitting address, an ordered sequence of topics and a within-block log index.
\<close>

record Log =
  Address :: Address
  Topics :: "Hash list"
  Index :: u64

section \<open>The duplicate check\<close>

text \<open>
  \<^verbatim>\<open>noDuplicates\<close> (lines 164-179) returns \<^verbatim>\<open>fmt.Errorf("duplicated log_index %d", indices[i])\<close>
  or \<^verbatim>\<open>nil\<close>.
\<close>

datatype dup_error = duplicated_log_index u64

text \<open>The variables of the closure: its parameter and the local slice it builds.\<close>

record nd_vars =
  logs :: "Log list"
  indices :: "u64 list"

text \<open>\<^verbatim>\<open>for i := 0; i < len(logs); i++ { indices = append(indices, uint64(logs[i].Index)) }\<close>\<close>

function appendIndices :: "nat \<Rightarrow> nd_vars \<Rightarrow> nd_vars" where
  "appendIndices i v =
     (if i < length (logs v)
      then appendIndices (i + 1) (v\<lparr>indices := indices v @ [Index (logs v ! i)]\<rparr>)
      else v)"
  by pat_completeness auto
termination
  by (relation "measure (\<lambda>(i, v). length (logs v) - i)") auto

declare appendIndices.simps [simp del]

text \<open>
  \<^verbatim>\<open>for i := 1; i < len(logs); i++ { if indices[i-1] == indices[i] { return error } }\<close>;
  falling out of the loop returns \<^verbatim>\<open>nil\<close>.
\<close>

function findRepeat :: "nat \<Rightarrow> nd_vars \<Rightarrow> dup_error option" where
  "findRepeat i v =
     (if i < length (logs v)
      then (if indices v ! (i - 1) = indices v ! i
            then Some (duplicated_log_index (indices v ! i))
            else findRepeat (i + 1) v)
      else None)"
  by pat_completeness auto
termination
  by (relation "measure (\<lambda>(i, v). length (logs v) - i)") auto

declare findRepeat.simps [simp del]

text \<open>
  The whole closure, with the final values of its variables. \<^verbatim>\<open>slices.Sort\<close> sorts the
  local slice in ascending unsigned order.
\<close>

definition noDuplicates_run :: "Log list \<Rightarrow> dup_error option \<times> nd_vars" where
  "noDuplicates_run ls =
     (let v = \<lparr>logs = ls, indices = []\<rparr> in
      if length (logs v) \<le> 1 then (None, v)
      else
        let v = appendIndices 0 v;
            v = v\<lparr>indices := sort (indices v)\<rparr>
        in (findRepeat 1 v, v))"

definition noDuplicates :: "Log list \<Rightarrow> dup_error option" where
  "noDuplicates ls = fst (noDuplicates_run ls)"

section \<open>The RPC collaborator\<close>

text \<open>
  Modelled from the spec: \<^verbatim>\<open>RequestGenerator\<close>, its request builders and its method
  \<^verbatim>\<open>Erigon\<close> are declared outside \<^verbatim>\<open>bench_ethgetlogs.go\<close>. The spec (section 6) presents
  them as a request/response contract in which every query returns a log set or an
  error, so the node is a parameter of the model. A request is identified by the builder
  that made it and the builder's arguments.
\<close>

datatype request =
    blockNumber
  | getLogsNoFilters u64 u64
  | getLogs u64 u64 Address
  | getLogs1 u64 u64 Address Hash

text \<open>
  What one call \<^verbatim>\<open>res := reqGen.Erigon(method, request, &resp)\<close> leaves behind:
  \<^verbatim>\<open>res.Err != nil\<close> (transport), \<^verbatim>\<open>resp.Error != nil\<close> with its code and message
  (an error response), or \<^verbatim>\<open>resp.Result\<close>. The code tests them in this order.
\<close>

datatype 'a reply = CallErr string | RespError int string | Result 'a

text \<open>
  The node answers a request by a reply that depends on the request only.

  The same \<^verbatim>\<open>resp\<close> (line 189) is handed to every call of a block, while the range loop
  of line 203 walks the array \<^verbatim>\<open>resp.Result\<close> had after the unfiltered call, and the
  \<^verbatim>\<open>l.Topics\<close> of the entry it copied shares its array with the cell copied. What a call
  leaves in that memory is up to the decoder, which is not in the file, so it is a
  parameter as well. For the requests \<open>cs\<close> sent so far for the block, the last of them
  being the call just answered:
  \<^item> \<open>cellAfter nd cs cells i\<close> is the entry in cell \<open>i\<close> of the walked array after that
    call, \<open>cells\<close> being the entries the cells held before it;
  \<^item> \<open>topicAfter nd cs i h\<close> is the first cell of the array of \<^verbatim>\<open>l.Topics\<close> after that
    call, for the entry \<^verbatim>\<open>l\<close> copied from cell \<open>i\<close>, \<open>h\<close> being what it held before it.

  A decoder that allocates a new result for every call leaves both as they were; one
  that decodes in place writes the entries of the reply over the cells.
\<close>

record node =
  blockNumberReply :: "u64 reply"
  logsReply :: "request \<Rightarrow> Log list reply"
  cellAfter :: "request list \<Rightarrow> Log list \<Rightarrow> nat \<Rightarrow> Log"
  topicAfter :: "request list \<Rightarrow> nat \<Rightarrow> Hash \<Rightarrow> Hash"

text \<open>
  The \<^verbatim>\<open>select\<close> at the end of a block's iteration (lines 250-256): \<open>ctxDone bn\<close> is
  \<open>Some e\<close> when the branch \<^verbatim>\<open>case <-ctx.Done()\<close> is taken there, \<open>e\<close> being the value
  of \<^verbatim>\<open>ctx.Err()\<close>. The ticker branch only writes a log line.
\<close>

datatype ctx_error = Canceled | DeadlineExceeded

type_synonym ctx = "u64 \<Rightarrow> ctx_error option"

section \<open>Failures\<close>

text \<open>
  One constructor for each \<^verbatim>\<open>fmt.Errorf\<close> of \<^verbatim>\<open>EthGetLogsInvariants\<close>, carrying the
  arguments of its format string, and one for \<^verbatim>\<open>ctx.Err()\<close>:
  \<^item> \<open>CouldNotGetBlockNumber\<close>: \<^verbatim>\<open>"Could not get block number: %v\n", res.Err\<close>
  \<^item> \<open>ErrorGettingBlockNumber\<close>: \<^verbatim>\<open>"Error getting block number: %d %s\n", Code, Message\<close>
  \<^item> \<open>CouldNotGet\<close>: \<^verbatim>\<open>"Could not get modified accounts (Erigon): %v\n", res.Err\<close>
  \<^item> \<open>ErrorGetting\<close>: \<^verbatim>\<open>"Error getting modified accounts (Erigon): %d %s\n", Code, Message\<close>
  \<^item> \<open>DupAtBlock\<close>: \<^verbatim>\<open>"eth_getLogs: at blockNum=%d %w", bn, err\<close>
  \<^item> \<open>AccountNotIndexed\<close>: \<^verbatim>\<open>"eth_getLogs: at blockNum=%d account %x not indexed", bn, l.Address\<close>
  \<^item> \<open>DupAtAddr\<close>: \<^verbatim>\<open>"eth_getLogs: at blockNum=%d and addr %x %w", bn, l.Address, err\<close>
  \<^item> \<open>TopicNotIndexed\<close>:
    \<^verbatim>\<open>"eth_getLogs: at blockNum=%d account %x, topic %x not indexed", bn, l.Address, l.Topics[0]\<close>
  \<^item> \<open>DupAtTopic\<close>: \<^verbatim>\<open>"eth_getLogs: at blockNum=%d and topic %x %w", bn, l.Topics[0], err\<close>
\<close>

datatype failure =
    CouldNotGetBlockNumber string
  | ErrorGettingBlockNumber int string
  | CouldNotGet string
  | ErrorGetting int string
  | DupAtBlock u64 dup_error
  | AccountNotIndexed u64 Address
  | DupAtAddr u64 Address dup_error
  | TopicNotIndexed u64 Address Hash
  | DupAtTopic u64 Hash dup_error
  | CtxErr ctx_error

text \<open>The block number among the arguments of a failure's message, if there is one.\<close>

fun failureBlock :: "failure \<Rightarrow> u64 option" where
  "failureBlock (CouldNotGetBlockNumber e) = None"
| "failureBlock (ErrorGettingBlockNumber c m) = None"
| "failureBlock (CouldNotGet e) = None"
| "failureBlock (ErrorGetting c m) = None"
| "failureBlock (DupAtBlock bn d) = Some bn"
| "failureBlock (AccountNotIndexed bn a) = Some bn"
| "failureBlock (DupAtAddr bn a d) = Some bn"
| "failureBlock (TopicNotIndexed bn a t) = Some bn"
| "failureBlock (DupAtTopic bn t d) = Some bn"
| "failureBlock (CtxErr e) = None"

section \<open>Checking one block\<close>

text \<open>The two per-block maps of lines 201-202, used as sets.\<close>

record seen =
  sawAddr :: "Address set"
  sawTopic :: "Hash set"

text \<open>
  Iteration \<open>i\<close> of \<^verbatim>\<open>for _, l := range resp.Result\<close> (lines 203-248). \<open>h\<close> are the requests
  sent so far for the block and \<open>cells\<close> the entries now in the cells of the walked
  array; \<^verbatim>\<open>l\<close> is a copy of cell \<open>i\<close>, so \<^verbatim>\<open>l.Address\<close> and \<^verbatim>\<open>len(l.Topics)\<close> are those
  of the copy, while \<^verbatim>\<open>l.Topics[0]\<close> is read from the shared array: after the
  address-filtered call at lines 230-235, and again after the topic-filtered call at
  lines 243 and 246. The result is the error returned from the function, if any
  (\<open>None\<close>: the loop goes on, by \<^verbatim>\<open>continue\<close> or by reaching the end of the body), the
  maps, the cells, and the requests sent by the iteration, in order.
\<close>

definition checkLog ::
  "node \<Rightarrow> u64 \<Rightarrow> request list \<Rightarrow> Log list \<Rightarrow> nat \<Rightarrow> seen \<Rightarrow>
     failure option \<times> seen \<times> Log list \<times> request list" where
  "checkLog nd bn h cells i s =
     (let l = cells ! i in
      if Address l \<in> sawAddr s then (None, s, cells, [])
      else
        let s = s\<lparr>sawAddr := insert (Address l) (sawAddr s)\<rparr>;
            qa = getLogs bn bn (Address l)
        in case logsReply nd qa of
             CallErr e \<Rightarrow> (Some (CouldNotGet e), s, cells, [qa])
           | RespError c m \<Rightarrow> (Some (ErrorGetting c m), s, cells, [qa])
           | Result r \<Rightarrow>
               let cells = map (cellAfter nd (h @ [qa]) cells) [0..<length cells] in
               if length r = 0 then (Some (AccountNotIndexed bn (Address l)), s, cells, [qa])
               else case noDuplicates r of
                 Some d \<Rightarrow> (Some (DupAtAddr bn (Address l) d), s, cells, [qa])
               | None \<Rightarrow>
                   if length (Topics l) = 0 then (None, s, cells, [qa])
                   else
                     let t = topicAfter nd (h @ [qa]) i (Topics l ! 0) in
                     if t \<in> sawTopic s then (None, s, cells, [qa])
                     else
                       let s = s\<lparr>sawTopic := insert t (sawTopic s)\<rparr>;
                           qt = getLogs1 bn bn (Address l) t
                       in case logsReply nd qt of
                            CallErr e \<Rightarrow> (Some (CouldNotGet e), s, cells, [qa, qt])
                          | RespError c m \<Rightarrow> (Some (ErrorGetting c m), s, cells, [qa, qt])
                          | Result r \<Rightarrow>
                              let cells = map (cellAfter nd (h @ [qa, qt]) cells) [0..<length cells];
                                  t = topicAfter nd (h @ [qa, qt]) i t
                              in if length r = 0
                                 then (Some (TopicNotIndexed bn (Address l) t), s, cells, [qa, qt])
                                 else case noDuplicates r of
                                   Some d \<Rightarrow> (Some (DupAtTopic bn t d), s, cells, [qa, qt])
                                 | None \<Rightarrow> (None, s, cells, [qa, qt]))"

text \<open>
  The range loop from iteration \<open>i\<close> on. \<^verbatim>\<open>range\<close> evaluates \<^verbatim>\<open>resp.Result\<close> once, so the
  number \<open>n\<close> of iterations and the array walked are fixed when the loop starts.
\<close>

function checkLogs ::
  "node \<Rightarrow> u64 \<Rightarrow> request list \<Rightarrow> Log list \<Rightarrow> nat \<Rightarrow> nat \<Rightarrow> seen \<Rightarrow>
     failure option \<times> seen \<times> Log list \<times> request list" where
  "checkLogs nd bn h cells n i s =
     (if i < n
      then (case checkLog nd bn h cells i s of
              (Some e, s', cells', cs) \<Rightarrow> (Some e, s', cells', cs)
            | (None, s', cells', cs) \<Rightarrow>
                (case checkLogs nd bn (h @ cs) cells' n (i + 1) s' of
                   (r, s'', cells'', cs') \<Rightarrow> (r, s'', cells'', cs @ cs')))
      else (None, s, cells, []))"
  by pat_completeness auto
termination
  by (relation "measure (\<lambda>(nd, bn, h, cells, n, i, s). n - i)") auto

declare checkLogs.simps [simp del]

text \<open>
  The body of the inner \<^verbatim>\<open>for\<close> loop for one block number (lines 187-256): the
  unfiltered query, the duplicate check, the loop over the entries of its result with
  fresh maps, and the \<^verbatim>\<open>select\<close>. The body runs in the calling goroutine (the \<^verbatim>\<open>eg.Go\<close>
  wrapper is commented out), so a \<^verbatim>\<open>return\<close> in it leaves \<^verbatim>\<open>EthGetLogsInvariants\<close>.
\<close>

definition checkBlock :: "node \<Rightarrow> ctx \<Rightarrow> u64 \<Rightarrow> failure option \<times> request list" where
  "checkBlock nd ctxDone bn =
     (let q = getLogsNoFilters bn bn
      in case logsReply nd q of
           CallErr e \<Rightarrow> (Some (CouldNotGet e), [q])
         | RespError c m \<Rightarrow> (Some (ErrorGetting c m), [q])
         | Result r \<Rightarrow>
             (case noDuplicates r of
                Some d \<Rightarrow> (Some (DupAtBlock bn d), [q])
              | None \<Rightarrow>
                  (case checkLogs nd bn [q] r (length r) 0 \<lparr>sawAddr = {}, sawTopic = {}\<rparr> of
                     (Some e, s, cells, cs) \<Rightarrow> (Some e, q # cs)
                   | (None, s, cells, cs) \<Rightarrow>
                       (case ctxDone bn of
                          Some e \<Rightarrow> (Some (CtxErr e), q # cs)
                        | None \<Rightarrow> (None, q # cs)))))"

section \<open>The range driver\<close>

text \<open>
  \<^verbatim>\<open>for ; bn < batchEnd; bn++\<close> (line 186): the result is the error returned, the value of
  \<^verbatim>\<open>bn\<close> when the loop is left, and the requests sent.
\<close>

function batchLoop :: "node \<Rightarrow> ctx \<Rightarrow> u64 \<Rightarrow> u64 \<Rightarrow> failure option \<times> u64 \<times> request list" where
  "batchLoop nd ctxDone bn batchEnd =
     (if bn < batchEnd
      then (case checkBlock nd ctxDone bn of
              (Some e, cs) \<Rightarrow> (Some e, bn, cs)
            | (None, cs) \<Rightarrow>
                (case batchLoop nd ctxDone (bn + 1) batchEnd of
                   (r, bn', cs') \<Rightarrow> (r, bn', cs @ cs')))
      else (None, bn, []))"
  by pat_completeness auto
termination
proof (relation "measure (\<lambda>(nd, ctxDone, bn, batchEnd). unat batchEnd - unat bn)")
  show "wf (measure (\<lambda>(nd, ctxDone, bn, batchEnd). unat batchEnd - unat bn))"
    by simp
next
  fix nd :: node and ctxDone :: ctx and bn batchEnd :: u64
  assume lt: "bn < batchEnd"
  then have "unat bn < unat batchEnd"
    by (simp add: word_less_nat_alt)
  moreover have "unat batchEnd < 2 ^ 64"
    using unsigned_less[of batchEnd, where 'a = nat] by simp
  ultimately have "unat bn < unat batchEnd" and "unat (bn + 1) = Suc (unat bn)"
    by (simp_all add: unat_word_ariths)
  then show "((nd, ctxDone, bn + 1, batchEnd), (nd, ctxDone, bn, batchEnd))
      \<in> measure (\<lambda>(nd, ctxDone, bn, batchEnd). unat batchEnd - unat bn)"
    by simp
qed

declare batchLoop.simps [simp del]

text \<open>
  \<^verbatim>\<open>for bn := blockFrom; bn < blockTo; { batchEnd := min(bn+10, blockTo); ... }\<close> (lines
  181-265). \<^verbatim>\<open>bn+10\<close> is \<^verbatim>\<open>uint64\<close> addition. No goroutine is started on the group, so
  \<^verbatim>\<open>eg.Wait()\<close> returns \<^verbatim>\<open>nil\<close>. The loop has no bound of its own: \<open>None\<close> is the run
  that does not return.
\<close>

partial_function (option) rangeLoop ::
  "node \<Rightarrow> ctx \<Rightarrow> u64 \<Rightarrow> u64 \<Rightarrow> (failure option \<times> request list) option" where
  "rangeLoop nd ctxDone bn blockTo =
     (if bn < blockTo
      then (let batchEnd = min (bn + 10) blockTo
            in case batchLoop nd ctxDone bn batchEnd of
                 (Some e, bn', cs) \<Rightarrow> Some (Some e, cs)
               | (None, bn', cs) \<Rightarrow>
                   Option.bind (rangeLoop nd ctxDone bn' blockTo)
                     (\<lambda>(r, cs'). Some (r, cs @ cs')))
      else Some (None, []))"

text \<open>
  The entry point (lines 147-267): the \<^verbatim>\<open>eth_blockNumber\<close> call and its two checks, then
  the loops. \<^verbatim>\<open>setRoutes\<close> stores the two URLs and \<^verbatim>\<open>needCompare\<close> is not used. The
  result is the returned error (\<open>None\<close> for \<^verbatim>\<open>nil\<close>) with the requests sent.
\<close>

definition EthGetLogsInvariants ::
  "node \<Rightarrow> ctx \<Rightarrow> u64 \<Rightarrow> u64 \<Rightarrow> (failure option \<times> request list) option" where
  "EthGetLogsInvariants nd ctxDone blockFrom blockTo =
     (case blockNumberReply nd of
        CallErr e \<Rightarrow> Some (Some (CouldNotGetBlockNumber e), [blockNumber])
      | RespError c m \<Rightarrow> Some (Some (ErrorGettingBlockNumber c m), [blockNumber])
      | Result n \<Rightarrow>
          Option.bind (rangeLoop nd ctxDone blockFrom blockTo)
            (\<lambda>(r, cs). Some (r, blockNumber # cs)))"

section \<open>Observing the requests sent\<close>

text \<open>
  A request filtered by the address \<open>a\<close> alone (built by \<^verbatim>\<open>getLogs\<close>), an unfiltered
  request (built by \<^verbatim>\<open>getLogsNoFilters\<close>), and a request filtered by an address and the
  topic \<open>h\<close> (built by \<^verbatim>\<open>getLogs1\<close>).
\<close>

fun isAddrQuery :: "Address \<Rightarrow> request \<Rightarrow> bool" where
  "isAddrQuery a (getLogs f t a') = (a' = a)"
| "isAddrQuery a blockNumber = False"
| "isAddrQuery a (getLogsNoFilters f t) = False"
| "isAddrQuery a (getLogs1 f t a' h) = False"

fun isBlockQuery :: "request \<Rightarrow> bool" where
  "isBlockQuery (getLogsNoFilters f t) = True"
| "isBlockQuery blockNumber = False"
| "isBlockQuery (getLogs f t a) = False"
| "isBlockQuery (getLogs1 f t a h) = False"

fun isTopicQuery :: "Hash \<Rightarrow> request \<Rightarrow> bool" where
  "isTopicQuery h (getLogs1 f t a h') = (h' = h)"
| "isTopicQuery h blockNumber = False"
| "isTopicQuery h (getLogsNoFilters f t) = False"
| "isTopicQuery h (getLogs f t a) = False"

section \<open>The range as the spec describes it\<close>

text \<open>
  The block numbers of the exclusive interval \<open>[blockFrom, blockTo)\<close>, in ascending order
  (empty unless \<open>blockFrom < blockTo\<close>).
\<close>

definition blockRange :: "u64 \<Rightarrow> u64 \<Rightarrow> u64 list" where
  "blockRange blockFrom blockTo = map word_of_nat [unat blockFrom ..< unat blockTo]"

text \<open>
  Fail-fast over a list of block numbers, as the spec words it: the blocks are checked in
  order, the first failure is the result, and no later block is checked. This is the
  specification the two loops of the driver are compared with.
\<close>

fun firstFailure :: "node \<Rightarrow> ctx \<Rightarrow> u64 list \<Rightarrow> failure option \<times> request list" where
  "firstFailure nd ctxDone [] = (None, [])"
| "firstFailure nd ctxDone (b # bs) =
     (case checkBlock nd ctxDone b of
        (Some e, cs) \<Rightarrow> (Some e, cs)
      | (None, cs) \<Rightarrow>
          (case firstFailure nd ctxDone bs of (r, cs') \<Rightarrow> (r, cs @ cs')))"

section \<open>Test doubles\<close>

text \<open>
  A node given by a table of replies to log requests; a request that is not in the table
  is answered by the empty log set. Its \<^verbatim>\<open>eth_blockNumber\<close> call succeeds. Its replies
  are decoded in place: entry \<open>j\<close> of a reply is stored in cell \<open>j\<close>, the cells behind the
  reply keep their entries, and the first topic of entry \<open>i\<close> of a reply, if it has one,
  is stored in the first cell of the topics array of cell \<open>i\<close>.
\<close>

definition tableReply :: "(request \<times> Log list reply) list \<Rightarrow> request \<Rightarrow> Log list reply" where
  "tableReply tab q = (case map_of tab q of Some r \<Rightarrow> r | None \<Rightarrow> Result [])"

definition inPlaceCell ::
  "(request \<Rightarrow> Log list reply) \<Rightarrow> request list \<Rightarrow> Log list \<Rightarrow> nat \<Rightarrow> Log" where
  "inPlaceCell f cs cells j =
     (case f (last cs) of
        CallErr e \<Rightarrow> cells ! j
      | RespError c m \<Rightarrow> cells ! j
      | Result r \<Rightarrow> if j < length r then r ! j else cells ! j)"

definition inPlaceTopic ::
  "(request \<Rightarrow> Log list reply) \<Rightarrow> request list \<Rightarrow> nat \<Rightarrow> Hash \<Rightarrow> Hash" where
  "inPlaceTopic f cs i t =
     (case f (last cs) of
        CallErr e \<Rightarrow> t
      | RespError c m \<Rightarrow> t
      | Result r \<Rightarrow> if i < length r \<and> length (Topics (r ! i)) \<noteq> 0 then Topics (r ! i) ! 0 else t)"

definition tableNode :: "(request \<times> Log list reply) list \<Rightarrow> node" where
  "tableNode tab =
     \<lparr>blockNumberReply = Result 1000,
      logsReply = tableReply tab,
      cellAfter = inPlaceCell (tableReply tab),
      topicAfter = inPlaceTopic (tableReply tab)\<rparr>"

text \<open>A context that is never done.\<close>

definition neverDone :: ctx where
  "neverDone bn = None"

text \<open>
  Block 7 of the spec's scenario: two entries of address \<open>0xC\<close>, the first with topic
  \<open>0x9\<close>, the second without topics; the address filter returns both and the topic
  filter the first. \<open>node7r\<close> returns the same two entries in the other order.
\<close>

definition log7a :: Log where
  "log7a = \<lparr>Address = 12, Topics = [9], Index = 0\<rparr>"

definition log7b :: Log where
  "log7b = \<lparr>Address = 12, Topics = [], Index = 1\<rparr>"

definition node7 :: node where
  "node7 = tableNode
     [(getLogsNoFilters 7 7, Result [log7a, log7b]),
      (getLogs 7 7 12, Result [log7a, log7b]),
      (getLogs1 7 7 12 9, Result [log7a])]"

definition node7r :: node where
  "node7r = tableNode
     [(getLogsNoFilters 7 7, Result [log7b, log7a]),
      (getLogs 7 7 12, Result [log7b, log7a]),
      (getLogs1 7 7 12 9, Result [log7a])]"

text \<open>A node whose \<^verbatim>\<open>eth_blockNumber\<close> call fails in transport; its log sets are empty.\<close>

definition nodeDown :: node where
  "nodeDown = (tableNode [])\<lparr>blockNumberReply := CallErr ''connection refused''\<rparr>"

text \<open>
  Block 5 of the spec's scenario: the unfiltered result holds the same entry twice, so
  log index 0 is repeated.
\<close>

definition log5 :: Log where
  "log5 = \<lparr>Address = 10, Topics = [1], Index = 0\<rparr>"

definition node5 :: node where
  "node5 = tableNode [(getLogsNoFilters 5 5, Result [log5, log5])]"

text \<open>
  Block 6 of the spec's scenario: one entry of address \<open>0xB\<close> without topics, and the
  address filter returns nothing. \<open>node6ab\<close> has an entry of address \<open>0xA\<close> before it, and
  neither address filter returns anything; \<open>node6w\<close> is \<open>node6ab\<close> with the filter by
  \<open>0xA\<close> returning the entry of \<open>0xA\<close>.
\<close>

definition log6 :: Log where
  "log6 = \<lparr>Address = 11, Topics = [], Index = 0\<rparr>"

definition node6 :: node where
  "node6 = tableNode [(getLogsNoFilters 6 6, Result [log6])]"








text \<open>
  Block 8: entries of the addresses \<open>0xA\<close>, \<open>0xB\<close>, \<open>0xA\<close>; the filter by \<open>0xA\<close> returns the
  first and the third, the filter by \<open>0xB\<close> the second. Block 9: one entry of \<open>0xA\<close> with
  topic \<open>0x9\<close>, for which the filter by \<open>0xA\<close> returns an entry with topic \<open>0x8\<close>.
\<close>

definition log8a :: Log where
  "log8a = \<lparr>Address = 10, Topics = [], Index = 0\<rparr>"

definition log8b :: Log where
  "log8b = \<lparr>Address = 11, Topics = [], Index = 1\<rparr>"

definition log8c :: Log where
  "log8c = \<lparr>Address = 10, Topics = [], Index = 2\<rparr>"

definition node8 :: node where
  "node8 = tableNode
     [(getLogsNoFilters 8 8, Result [log8a, log8b, log8c]),
      (getLogs 8 8 10, Result [log8a, log8c]),
      (getLogs 8 8 11, Result [log8b])]"

definition log9a :: Log where
  "log9a = \<lparr>Address = 10, Topics = [9], Index = 0\<rparr>"

definition log9b :: Log where
  "log9b = \<lparr>Address = 10, Topics = [8], Index = 0\<rparr>"

definition node9 :: node where
  "node9 = tableNode
     [(getLogsNoFilters 9 9, Result [log9a]),
      (getLogs 9 9 10, Result [log9b]),
      (getLogs1 9 9 10 8, Result [log9b]),
      (getLogs1 9 9 10 9, Result [log9a])]"

text \<open>
  A node whose unfiltered query for blocks 5 and 6 fails in transport, and a node that
  answers the address-filtered query of block 6 by an error response.
\<close>

definition nodeTimeout :: node where
  "nodeTimeout = tableNode
     [(getLogsNoFilters 5 5, CallErr ''timeout''), (getLogsNoFilters 6 6, CallErr ''timeout'')]"

definition nodeRpcError :: node where
  "nodeRpcError = tableNode
     [(getLogsNoFilters 6 6, Result [log6]), (getLogs 6 6 11, RespError (-32000) ''query timeout'')]"

text \<open>A context that is cancelled when the \<^verbatim>\<open>select\<close> of block 7 is reached.\<close>

definition doneAt7 :: ctx where
  "doneAt7 bn = (if bn = 7 then Some Canceled else None)"

section \<open>Properties of the duplicate check\<close>

lemma appendIndices_logs: "logs (appendIndices i v) = logs v"
proof (induction i v rule: appendIndices.induct)
  case (1 i v)
  then show ?case by (subst appendIndices.simps) simp
qed

lemma appendIndices_indices:
  "i \<le> length (logs v) \<Longrightarrow> indices (appendIndices i v) = indices v @ map Index (drop i (logs v))"
proof (induction i v rule: appendIndices.induct)
  case (1 i v)
  show ?case
  proof (cases "i < length (logs v)")
    case True
    then have "drop i (logs v) = logs v ! i # drop (Suc i) (logs v)"
      by (simp add: Cons_nth_drop_Suc)
    with True 1 show ?thesis
      by (subst appendIndices.simps) simp
  next
    case False
    with 1 show ?thesis by (subst appendIndices.simps) simp
  qed
qed

lemma findRepeat_None_iff:
  "findRepeat i v = None \<longleftrightarrow>
     (\<forall>j. i \<le> j \<and> j < length (logs v) \<longrightarrow> indices v ! (j - 1) \<noteq> indices v ! j)"
proof (induction i v rule: findRepeat.induct)
  case (1 i v)
  show ?case
  proof (cases "i < length (logs v)")
    case False
    then show ?thesis by (subst findRepeat.simps) auto
  next
    case True
    show ?thesis
    proof (cases "indices v ! (i - 1) = indices v ! i")
      case eq: True
      with True show ?thesis by (subst findRepeat.simps) auto
    next
      case neq: False
      have "(\<forall>j. i \<le> j \<and> j < length (logs v) \<longrightarrow> indices v ! (j - 1) \<noteq> indices v ! j)
         \<longleftrightarrow> (\<forall>j. i + 1 \<le> j \<and> j < length (logs v) \<longrightarrow> indices v ! (j - 1) \<noteq> indices v ! j)"
      proof (intro iffI allI impI)
        fix j assume a: "\<forall>j. i + 1 \<le> j \<and> j < length (logs v) \<longrightarrow> indices v ! (j - 1) \<noteq> indices v ! j"
          and j: "i \<le> j \<and> j < length (logs v)"
        show "indices v ! (j - 1) \<noteq> indices v ! j"
        proof (cases "j = i")
          case True with neq show ?thesis by simp
        next
          case False with j have "i + 1 \<le> j" by simp
          with a j show ?thesis by blast
        qed
      qed simp
      with True neq 1 show ?thesis by (subst findRepeat.simps) simp
    qed
  qed
qed

lemma findRepeat_Some:
  "findRepeat i v = Some d \<Longrightarrow>
     \<exists>j. i \<le> j \<and> j < length (logs v) \<and> indices v ! (j - 1) = indices v ! j
        \<and> d = duplicated_log_index (indices v ! j)"
proof (induction i v rule: findRepeat.induct)
  case (1 i v)
  show ?case
  proof (cases "i < length (logs v) \<and> indices v ! (i - 1) \<noteq> indices v ! i")
    case True
    with 1 obtain j where "i + 1 \<le> j" "j < length (logs v)" "indices v ! (j - 1) = indices v ! j"
       "d = duplicated_log_index (indices v ! j)"
      by (subst (asm) (2) findRepeat.simps) auto
    then show ?thesis by (intro exI[of _ j]) simp
  next
    case False
    with "1.prems" show ?thesis
      by (subst (asm) findRepeat.simps) (auto split: if_splits)
  qed
qed

lemma noDuplicates_unfold:
  "noDuplicates ls =
     (if length ls \<le> 1 then None
      else findRepeat 1 \<lparr>logs = ls, indices = sort (map Index ls)\<rparr>)"
proof -
  have "appendIndices 0 \<lparr>logs = ls, indices = []\<rparr> = \<lparr>logs = ls, indices = map Index ls\<rparr>"
    using appendIndices_logs[of 0 "\<lparr>logs = ls, indices = []\<rparr>"]
          appendIndices_indices[of 0 "\<lparr>logs = ls, indices = []\<rparr>"]
    by (cases "appendIndices 0 \<lparr>logs = ls, indices = []\<rparr>") simp
  then show ?thesis
    by (simp add: noDuplicates_def noDuplicates_run_def Let_def)
qed

lemma sorted_distinct_iff_adjacent:
  fixes xs :: "'a::linorder list"
  assumes "sorted xs"
  shows "distinct xs \<longleftrightarrow> (\<forall>j. 1 \<le> j \<and> j < length xs \<longrightarrow> xs ! (j - 1) \<noteq> xs ! j)"
proof
  assume "distinct xs"
  then show "\<forall>j. 1 \<le> j \<and> j < length xs \<longrightarrow> xs ! (j - 1) \<noteq> xs ! j"
    by (auto simp: nth_eq_iff_index_eq)
next
  assume adj: "\<forall>j. 1 \<le> j \<and> j < length xs \<longrightarrow> xs ! (j - 1) \<noteq> xs ! j"
  have "sorted_wrt (<) xs"
  proof (subst sorted_wrt_iff_nth_Suc_transp)
    show "transp ((<) :: 'a \<Rightarrow> 'a \<Rightarrow> bool)" by simp
    show "\<forall>i. Suc i < length xs \<longrightarrow> xs ! i < xs ! Suc i"
    proof (intro allI impI)
      fix i assume i: "Suc i < length xs"
      have "xs ! i \<le> xs ! Suc i" using assms i by (simp add: sorted_iff_nth_Suc)
      moreover have "xs ! i \<noteq> xs ! Suc i" using adj[rule_format, of "Suc i"] i by simp
      ultimately show "xs ! i < xs ! Suc i" by simp
    qed
  qed
  then show "distinct xs" by (simp add: strict_sorted_iff)
qed

lemma adjacent_equal_count:
  assumes "1 \<le> j" "j < length xs" "xs ! (j - 1) = xs ! j"
  shows "2 \<le> count_list xs (xs ! j)"
proof -
  have "xs = take (j - 1) xs @ xs ! (j - 1) # xs ! j # drop (Suc j) xs"
  proof -
    from assms(1) obtain k where k: "j = Suc k" by (cases j) auto
    with assms(2) have lt: "Suc k < length xs" by simp
    have "xs = take k xs @ drop k xs" by simp
    also have "drop k xs = xs ! k # drop (Suc k) xs"
      using lt by (simp add: Cons_nth_drop_Suc)
    also have "drop (Suc k) xs = xs ! Suc k # drop (Suc (Suc k)) xs"
      using lt by (simp add: Cons_nth_drop_Suc)
    finally show ?thesis using k by simp
  qed
  then have "count_list xs (xs ! j) = count_list (take (j - 1) xs @ xs ! (j - 1) # xs ! j # drop (Suc j) xs) (xs ! j)"
    by simp
  then show ?thesis using assms(3) by simp
qed

lemma noDuplicates_spec:
  "(distinct (map Index ls) \<longrightarrow> noDuplicates ls = None) \<and>
   (\<not> distinct (map Index ls) \<longrightarrow>
      (\<exists>v. noDuplicates ls = Some (duplicated_log_index v) \<and> 2 \<le> count_list (map Index ls) v))"
proof (cases "length ls \<le> 1")
  case True
  then have "distinct (map Index ls)"
    by (cases ls) auto
  with True show ?thesis by (simp add: noDuplicates_unfold)
next
  case False
  let ?xs = "sort (map Index ls)"
  let ?v = "\<lparr>logs = ls, indices = ?xs\<rparr>"
  have nd: "noDuplicates ls = findRepeat 1 ?v"
    using False by (simp add: noDuplicates_unfold)
  have len: "length ?xs = length ls" by simp
  have dist: "distinct (map Index ls) \<longleftrightarrow> distinct ?xs"
    by (metis distinct_sort)
  have adj: "distinct ?xs \<longleftrightarrow> (\<forall>j. 1 \<le> j \<and> j < length ls \<longrightarrow> ?xs ! (j - 1) \<noteq> ?xs ! j)"
    using sorted_distinct_iff_adjacent[of ?xs] len by simp
  show ?thesis
  proof (intro conjI impI)
    assume "distinct (map Index ls)"
    with dist adj show "noDuplicates ls = None"
      unfolding nd findRepeat_None_iff by simp
  next
    assume "\<not> distinct (map Index ls)"
    with dist adj have "findRepeat 1 ?v \<noteq> None"
      unfolding findRepeat_None_iff by simp
    then obtain d where d: "findRepeat 1 ?v = Some d" by auto
    from findRepeat_Some[OF d] obtain j where j: "1 \<le> j" "j < length ls"
      "?xs ! (j - 1) = ?xs ! j" "d = duplicated_log_index (?xs ! j)" by auto
    have "2 \<le> count_list ?xs (?xs ! j)"
      using adjacent_equal_count[of j ?xs] j len by simp
    also have "count_list ?xs (?xs ! j) = count_list (map Index ls) (?xs ! j)"
      by (metis count_mset mset_sort)
    finally show "\<exists>v. noDuplicates ls = Some (duplicated_log_index v) \<and> 2 \<le> count_list (map Index ls) v"
      using nd d j(4) by (intro exI[of _ "?xs ! j"]) simp
  qed
qed

text \<open>
  Claim C3. The duplicate check fails exactly when a log-index value is repeated: on a
  log set whose index values are all distinct (so also on one with 0 or 1 entries) it
  returns no error, and on a log set with a repeated index value it returns the error
  naming a value that occurs at least twice.
\<close>

theorem duplicate_check_iff:
  "(distinct (map Index ls) \<longrightarrow> noDuplicates ls = None) \<and>
   (length ls \<le> 1 \<longrightarrow> noDuplicates ls = None) \<and>
   (\<not> distinct (map Index ls) \<longrightarrow>
      (\<exists>v. noDuplicates ls = Some (duplicated_log_index v) \<and> 2 \<le> count_list (map Index ls) v))"
  using noDuplicates_spec[of ls] by (simp add: noDuplicates_unfold)

text \<open>Two entries with indices 0 and 1 pass; two entries with index 0 fail, naming 0.\<close>

theorem duplicate_check_iff_witness:
  "noDuplicates [\<lparr>Address = 10, Topics = [1], Index = 0\<rparr>, \<lparr>Address = 10, Topics = [1], Index = 1\<rparr>] = None \<and>
   noDuplicates [\<lparr>Address = 10, Topics = [1], Index = 0\<rparr>] = None \<and>
   (\<exists>v. noDuplicates [\<lparr>Address = 10, Topics = [1], Index = 0\<rparr>, \<lparr>Address = 10, Topics = [1], Index = 0\<rparr>]
          = Some (duplicated_log_index v) \<and>
        2 \<le> count_list (map Index [\<lparr>Address = 10, Topics = [1], Index = 0\<rparr>, \<lparr>Address = 10, Topics = [1], Index = 0\<rparr>]) v)"
  using duplicate_check_iff[of "[\<lparr>Address = 10, Topics = [1], Index = 0\<rparr>, \<lparr>Address = 10, Topics = [1], Index = 1\<rparr>]"]
        duplicate_check_iff[of "[\<lparr>Address = 10, Topics = [1], Index = 0\<rparr>]"]
        duplicate_check_iff[of "[\<lparr>Address = 10, Topics = [1], Index = 0\<rparr>, \<lparr>Address = 10, Topics = [1], Index = 0\<rparr>]"]
  by simp

lemma findRepeat_frame:
  "length (logs v) = length (logs w) \<Longrightarrow> indices v = indices w \<Longrightarrow> findRepeat i v = findRepeat i w"
proof (induction i v rule: findRepeat.induct)
  case (1 i v)
  then show ?case
    by (subst findRepeat.simps, subst (2) findRepeat.simps) simp
qed

text \<open>
  Claim C10. The duplicate check reads its argument only: when it returns, the variable
  \<open>logs\<close> holds the log set it was called with. Its result depends only on the multiset
  of the log-index values, hence it is the same for every reordering of the entries.
\<close>

theorem noDuplicates_permutation_invariant:
  "logs (snd (noDuplicates_run ls)) = ls \<and>
   (mset (map Index ls') = mset (map Index ls) \<longrightarrow> noDuplicates ls' = noDuplicates ls) \<and>
   (mset ls' = mset ls \<longrightarrow> noDuplicates ls' = noDuplicates ls)"
proof -
  have ro: "logs (snd (noDuplicates_run ls)) = ls"
    by (simp add: noDuplicates_run_def Let_def appendIndices_logs)
  have idx: "noDuplicates ls' = noDuplicates ls"
    if eq: "mset (map Index ls') = mset (map Index ls)" for ls' ls
  proof -
    have "length (map Index ls') = length (map Index ls)"
      using eq by (rule mset_eq_length)
    then have len: "length ls' = length ls" by simp
    have srt: "sort (map Index ls') = sort (map Index ls)"
      using eq by (intro properties_for_sort) simp_all
    show ?thesis
    proof (cases "length ls \<le> 1")
      case True
      with len show ?thesis by (simp add: noDuplicates_unfold)
    next
      case False
      with len srt show ?thesis
        by (simp add: noDuplicates_unfold findRepeat_frame[of "\<lparr>logs = ls', indices = xs\<rparr>" "\<lparr>logs = ls, indices = xs\<rparr>" for xs])
    qed
  qed
  have "mset ls' = mset ls \<Longrightarrow> mset (map Index ls') = mset (map Index ls)"
    by (metis mset_map)
  with ro idx show ?thesis by blast
qed

text \<open>
  The three entries with indices 3, 0, 3 and their reordering 0, 3, 3 give the same
  result, and the argument is still in \<open>logs\<close> afterwards.
\<close>

theorem noDuplicates_permutation_invariant_witness:
  "logs (snd (noDuplicates_run
      [\<lparr>Address = 10, Topics = [1], Index = 3\<rparr>, \<lparr>Address = 11, Topics = [], Index = 0\<rparr>,
       \<lparr>Address = 10, Topics = [1], Index = 3\<rparr>])) =
      [\<lparr>Address = 10, Topics = [1], Index = 3\<rparr>, \<lparr>Address = 11, Topics = [], Index = 0\<rparr>,
       \<lparr>Address = 10, Topics = [1], Index = 3\<rparr>] \<and>
   noDuplicates
      [\<lparr>Address = 11, Topics = [], Index = 0\<rparr>, \<lparr>Address = 10, Topics = [1], Index = 3\<rparr>,
       \<lparr>Address = 10, Topics = [1], Index = 3\<rparr>] =
   noDuplicates
      [\<lparr>Address = 10, Topics = [1], Index = 3\<rparr>, \<lparr>Address = 11, Topics = [], Index = 0\<rparr>,
       \<lparr>Address = 10, Topics = [1], Index = 3\<rparr>]"
  using noDuplicates_permutation_invariant
    [of "[\<lparr>Address = 10, Topics = [1], Index = 3\<rparr>, \<lparr>Address = 11, Topics = [], Index = 0\<rparr>,
          \<lparr>Address = 10, Topics = [1], Index = 3\<rparr>]"
        "[\<lparr>Address = 11, Topics = [], Index = 0\<rparr>, \<lparr>Address = 10, Topics = [1], Index = 3\<rparr>,
          \<lparr>Address = 10, Topics = [1], Index = 3\<rparr>]"]
  by simp

section \<open>Properties of the block check\<close>

subsection \<open>Requests sent by the loop over the entries\<close>

lemma checkLog_sawAddr:
  "checkLog nd bn h cells i s = (r, s', cells', cs) \<Longrightarrow>
     sawAddr s' = insert (Address (cells ! i)) (sawAddr s)"
  by (auto simp: checkLog_def Let_def split: if_splits reply.splits option.splits)

lemma checkLog_sawTopic:
  "checkLog nd bn h cells i s = (r, s', cells', cs) \<Longrightarrow> sawTopic s \<subseteq> sawTopic s'"
  by (auto simp: checkLog_def Let_def split: if_splits reply.splits option.splits)

lemma checkLog_length:
  "checkLog nd bn h cells i s = (r, s', cells', cs) \<Longrightarrow> length cells' = length cells"
  by (auto simp: checkLog_def Let_def split: if_splits reply.splits option.splits)

lemma checkLog_addr_queries:
  "checkLog nd bn h cells i s = (r, s', cells', cs) \<Longrightarrow>
     filter (isAddrQuery a) cs =
       (if a = Address (cells ! i) \<and> Address (cells ! i) \<notin> sawAddr s then [getLogs bn bn a] else [])"
  by (auto simp: checkLog_def Let_def split: if_splits reply.splits option.splits)

lemma checkLog_topic_queries:
  "checkLog nd bn h cells i s = (r, s', cells', cs) \<Longrightarrow>
     filter (isTopicQuery t) cs = [] \<or>
     (t \<notin> sawTopic s \<and> t \<in> sawTopic s' \<and>
      filter (isTopicQuery t) cs = [getLogs1 bn bn (Address (cells ! i)) t])"
  by (auto simp: checkLog_def Let_def split: if_splits reply.splits option.splits)

lemma checkLogs_done: "\<not> i < n \<Longrightarrow> checkLogs nd bn h cells n i s = (None, s, cells, [])"
  by (subst checkLogs.simps) simp

lemma checkLogs_step_elim:
  assumes "checkLogs nd bn h cells n i s = (r, s', cells', cs)" and "i < n"
  obtains (fail) e where "checkLog nd bn h cells i s = (Some e, s', cells', cs)" "r = Some e"
  | (pass) s1 cells1 cs1 cs2 where "checkLog nd bn h cells i s = (None, s1, cells1, cs1)"
      "checkLogs nd bn (h @ cs1) cells1 n (i + 1) s1 = (r, s', cells', cs2)" "cs = cs1 @ cs2"
  using assms by (subst (asm) checkLogs.simps) (auto split: prod.splits option.splits)

lemma checkLogs_addr_once:
  "checkLogs nd bn h cells n i s = (r, s', cells', cs) \<Longrightarrow>
     (a \<in> sawAddr s \<longrightarrow> filter (isAddrQuery a) cs = []) \<and>
     length (filter (isAddrQuery a) cs) \<le> 1"
proof (induction "n - i" arbitrary: i h cells s r s' cells' cs)
  case 0
  then have "\<not> i < n" by simp
  with "0.prems" show ?case by (simp add: checkLogs_done)
next
  case (Suc k)
  then have lt: "i < n" by simp
  from Suc.prems lt show ?case
  proof (cases rule: checkLogs_step_elim)
    case (fail e)
    then show ?thesis
      using checkLog_addr_queries[OF fail(1), of a] by simp
  next
    case (pass s1 cells1 cs1 cs2)
    have "k = n - (i + 1)" using Suc.hyps(2) by simp
    note ih = Suc.hyps(1)[OF this pass(2)]
    note st = checkLog_addr_queries[OF pass(1), of a] checkLog_sawAddr[OF pass(1)]
    show ?thesis
    proof (cases "a \<in> sawAddr s1")
      case True
      with ih st pass(3) show ?thesis by auto
    next
      case False
      with ih st pass(3) show ?thesis by auto
    qed
  qed
qed

lemma checkLogs_topic_once:
  "checkLogs nd bn h cells n i s = (r, s', cells', cs) \<Longrightarrow>
     (t \<in> sawTopic s \<longrightarrow> filter (isTopicQuery t) cs = []) \<and>
     length (filter (isTopicQuery t) cs) \<le> 1"
proof (induction "n - i" arbitrary: i h cells s r s' cells' cs)
  case 0
  then have "\<not> i < n" by simp
  with "0.prems" show ?case by (simp add: checkLogs_done)
next
  case (Suc k)
  then have lt: "i < n" by simp
  from Suc.prems lt show ?case
  proof (cases rule: checkLogs_step_elim)
    case (fail e)
    then show ?thesis
      using checkLog_topic_queries[OF fail(1), of t] by auto
  next
    case (pass s1 cells1 cs1 cs2)
    have "k = n - (i + 1)" using Suc.hyps(2) by simp
    note ih = Suc.hyps(1)[OF this pass(2)]
    note st = checkLog_topic_queries[OF pass(1), of t] checkLog_sawTopic[OF pass(1)]
    show ?thesis
    proof (cases "t \<in> sawTopic s1")
      case True
      with ih st pass(3) show ?thesis by auto
    next
      case False
      with ih st pass(3) show ?thesis by auto
    qed
  qed
qed

lemma checkBlock_calls:
  "\<exists>cs. snd (checkBlock nd ctxDone bn) = getLogsNoFilters bn bn # cs \<and>
     (cs = [] \<or> (\<exists>ls r s cells. logsReply nd (getLogsNoFilters bn bn) = Result ls \<and>
         noDuplicates ls = None \<and>
         checkLogs nd bn [getLogsNoFilters bn bn] ls (length ls) 0 \<lparr>sawAddr = {}, sawTopic = {}\<rparr> =
           (r, s, cells, cs)))"
  by (auto simp: checkBlock_def Let_def split: reply.splits option.splits prod.splits)

lemma checkBlock_filtered_once:
  "length (filter (isAddrQuery a) (snd (checkBlock nd ctxDone bn))) \<le> 1 \<and>
   length (filter (isTopicQuery t) (snd (checkBlock nd ctxDone bn))) \<le> 1"
proof -
  let ?q = "getLogsNoFilters bn bn"
  obtain cs where cs: "snd (checkBlock nd ctxDone bn) = ?q # cs"
    and d: "cs = [] \<or> (\<exists>ls r s cells. logsReply nd ?q = Result ls \<and>
         noDuplicates ls = None \<and>
         checkLogs nd bn [?q] ls (length ls) 0 \<lparr>sawAddr = {}, sawTopic = {}\<rparr> = (r, s, cells, cs))"
    using checkBlock_calls by blast
  from d show ?thesis
  proof
    assume "cs = []"
    with cs show ?thesis by simp
  next
    assume "\<exists>ls r s cells. logsReply nd ?q = Result ls \<and>
         noDuplicates ls = None \<and>
         checkLogs nd bn [?q] ls (length ls) 0 \<lparr>sawAddr = {}, sawTopic = {}\<rparr> = (r, s, cells, cs)"
    then obtain ls r s cells
      where "checkLogs nd bn [?q] ls (length ls) 0 \<lparr>sawAddr = {}, sawTopic = {}\<rparr> = (r, s, cells, cs)"
      by blast
    from checkLogs_addr_once[OF this, of a] checkLogs_topic_once[OF this, of t] cs
    show ?thesis by simp
  qed
qed

subsection \<open>Replies to the requests sent\<close>

lemma checkLog_replies:
  "checkLog nd bn h cells i s = (r, s', cells', cs) \<Longrightarrow> q \<in> set cs \<Longrightarrow>
     (logsReply nd q = CallErr e \<longrightarrow> r = Some (CouldNotGet e)) \<and>
     (logsReply nd q = RespError c m \<longrightarrow> r = Some (ErrorGetting c m))"
  by (auto simp: checkLog_def Let_def split: if_splits reply.splits option.splits)

lemma checkLog_pass_replies:
  "checkLog nd bn h cells i s = (None, s', cells', cs) \<Longrightarrow> q \<in> set cs \<Longrightarrow>
     \<exists>r. logsReply nd q = Result r"
  by (auto simp: checkLog_def Let_def split: if_splits reply.splits option.splits)

lemma checkLogs_replies:
  "checkLogs nd bn h cells n i s = (r, s', cells', cs) \<Longrightarrow> q \<in> set cs \<Longrightarrow>
     (logsReply nd q = CallErr e \<longrightarrow> r = Some (CouldNotGet e)) \<and>
     (logsReply nd q = RespError c m \<longrightarrow> r = Some (ErrorGetting c m))"
proof (induction "n - i" arbitrary: i h cells s r s' cells' cs)
  case 0
  then have "\<not> i < n" by simp
  with "0.prems" show ?case by (simp add: checkLogs_done)
next
  case (Suc k)
  then have lt: "i < n" by simp
  from Suc.prems(1) lt show ?case
  proof (cases rule: checkLogs_step_elim)
    case (fail e')
    with Suc.prems(2) checkLog_replies[OF fail(1), of q e c m] show ?thesis by simp
  next
    case (pass s1 cells1 cs1 cs2)
    have k: "k = n - (i + 1)" using Suc.hyps(2) by simp
    show ?thesis
    proof (cases "q \<in> set cs1")
      case True
      from checkLog_pass_replies[OF pass(1) True] show ?thesis by auto
    next
      case False
      with Suc.prems(2) pass(3) have "q \<in> set cs2" by simp
      from Suc.hyps(1)[OF k pass(2) this] show ?thesis .
    qed
  qed
qed

lemma checkBlock_replies:
  assumes "q \<in> set (snd (checkBlock nd ctxDone bn))"
  shows "(logsReply nd q = CallErr e \<longrightarrow> fst (checkBlock nd ctxDone bn) = Some (CouldNotGet e)) \<and>
         (logsReply nd q = RespError c m \<longrightarrow> fst (checkBlock nd ctxDone bn) = Some (ErrorGetting c m))"
proof (cases "logsReply nd (getLogsNoFilters bn bn)")
  case (CallErr e')
  with assms show ?thesis by (auto simp: checkBlock_def Let_def)
next
  case (RespError c' m')
  with assms show ?thesis by (auto simp: checkBlock_def Let_def)
next
  case (Result ls)
  show ?thesis
  proof (cases "noDuplicates ls")
    case (Some d)
    with Result assms show ?thesis by (auto simp: checkBlock_def Let_def)
  next
    case None
    let ?run = "checkLogs nd bn [getLogsNoFilters bn bn] ls (length ls) 0 \<lparr>sawAddr = {}, sawTopic = {}\<rparr>"
    obtain r s cells cs where run: "?run = (r, s, cells, cs)"
      by (cases ?run) auto
    from Result None run have calls: "snd (checkBlock nd ctxDone bn) = getLogsNoFilters bn bn # cs"
      by (auto simp: checkBlock_def Let_def split: option.splits)
    from Result None run have res: "\<And>f. r = Some f \<Longrightarrow> fst (checkBlock nd ctxDone bn) = Some f"
      by (auto simp: checkBlock_def Let_def split: option.splits)
    show ?thesis
    proof (cases "q = getLogsNoFilters bn bn")
      case True
      with Result show ?thesis by simp
    next
      case False
      with assms calls have "q \<in> set cs" by simp
      from checkLogs_replies[OF run this, of e c m] res show ?thesis by auto
    qed
  qed
qed

subsection \<open>Reaching an entry\<close>






section \<open>Properties of the range driver\<close>

subsection \<open>Block numbers\<close>

lemma unat_succ_less:
  fixes a b :: u64
  assumes "a < b"
  shows "unat (a + 1) = Suc (unat a)"
proof -
  have "unat a < unat b" using assms by (simp add: word_less_nat_alt)
  moreover have "unat b < 2 ^ 64" using unsigned_less[of b, where 'a = nat] by simp
  ultimately show ?thesis by (simp add: unat_word_ariths)
qed

lemma blockRange_Nil: "\<not> a < b \<Longrightarrow> blockRange a b = []"
  by (simp add: blockRange_def word_less_nat_alt)

lemma blockRange_Cons:
  assumes "a < b"
  shows "blockRange a b = a # blockRange (a + 1) b"
proof -
  have "unat a < unat b" using assms by (simp add: word_less_nat_alt)
  then have "[unat a ..< unat b] = unat a # [Suc (unat a) ..< unat b]"
    by (rule upt_conv_Cons)
  then have "blockRange a b = word_of_nat (unat a) # map word_of_nat [Suc (unat a) ..< unat b]"
    by (simp only: blockRange_def list.map)
  also have "word_of_nat (unat a) = a" by simp
  also have "Suc (unat a) = unat (a + 1)" by (simp only: unat_succ_less[OF assms])
  finally show ?thesis by (simp only: blockRange_def)
qed

lemma blockRange_append:
  assumes "a \<le> b" "b \<le> c"
  shows "blockRange a b @ blockRange b c = blockRange a c"
proof -
  from assms have le: "unat a \<le> unat b" "unat b \<le> unat c" by (simp_all add: word_le_nat_alt)
  have "[unat a ..< unat b + (unat c - unat b)] = [unat a ..< unat b] @ [unat b ..< unat b + (unat c - unat b)]"
    using le(1) by (rule upt_add_eq_append)
  moreover have "unat b + (unat c - unat b) = unat c" using le(2) by simp
  ultimately have "[unat a ..< unat c] = [unat a ..< unat b] @ [unat b ..< unat c]"
    by (simp only:)
  then show ?thesis by (simp only: blockRange_def map_append)
qed

lemma length_blockRange: "length (blockRange a b) = unat b - unat a"
  by (simp add: blockRange_def)

lemma unat_blockRange: "map unat (blockRange a b) = [unat a ..< unat b]"
proof -
  have "unat (word_of_nat x :: u64) = x" if "x \<in> set [unat a ..< unat b]" for x
  proof -
    have "unat b < 2 ^ 64" using unsigned_less[of b, where 'a = nat] by simp
    with that have "x < 2 ^ 64" by simp
    then show ?thesis by (simp add: unat_of_nat)
  qed
  then have "map (\<lambda>x. unat (word_of_nat x :: u64)) [unat a ..< unat b] = map (\<lambda>x. x) [unat a ..< unat b]"
    by (intro map_cong refl)
  then show ?thesis by (simp add: blockRange_def comp_def)
qed

lemma distinct_blockRange: "distinct (blockRange a b)"
proof -
  have "distinct (map unat (blockRange a b))"
    by (simp only: unat_blockRange distinct_upt)
  then show ?thesis by (simp only: distinct_map)
qed

subsection \<open>The loops against the fail-fast specification\<close>

lemma firstFailure_append:
  "firstFailure nd ctxDone (xs @ ys) =
     (case firstFailure nd ctxDone xs of
        (Some e, cs) \<Rightarrow> (Some e, cs)
      | (None, cs) \<Rightarrow> (case firstFailure nd ctxDone ys of (r, cs') \<Rightarrow> (r, cs @ cs')))"
  by (induction xs) (auto split: prod.splits option.splits)

lemma batchLoop_spec:
  "batchLoop nd ctxDone bn batchEnd = (r, bn', cs) \<Longrightarrow>
     firstFailure nd ctxDone (blockRange bn batchEnd) = (r, cs) \<and>
     (r = None \<longrightarrow> bn' = (if bn < batchEnd then batchEnd else bn))"
proof (induction nd ctxDone bn batchEnd arbitrary: r bn' cs rule: batchLoop.induct)
  case (1 nd ctxDone bn batchEnd)
  show ?case
  proof (cases "bn < batchEnd")
    case False
    with "1.prems" show ?thesis
      by (subst (asm) batchLoop.simps) (simp add: blockRange_Nil)
  next
    case True
    obtain r0 cs0 where blk: "checkBlock nd ctxDone bn = (r0, cs0)"
      by (cases "checkBlock nd ctxDone bn") auto
    show ?thesis
    proof (cases r0)
      case (Some e)
      with True blk "1.prems" show ?thesis
        by (subst (asm) batchLoop.simps) (auto simp: blockRange_Cons)
    next
      case None
      obtain r1 b1 cs1 where rest: "batchLoop nd ctxDone (bn + 1) batchEnd = (r1, b1, cs1)"
        by (cases "batchLoop nd ctxDone (bn + 1) batchEnd") auto
      from True blk None have
        ih: "firstFailure nd ctxDone (blockRange (bn + 1) batchEnd) = (r1, cs1) \<and>
             (r1 = None \<longrightarrow> b1 = (if bn + 1 < batchEnd then batchEnd else bn + 1))"
        using "1.IH"[OF True blk[symmetric] None rest] by simp
      from True blk None rest "1.prems" have res: "r = r1 \<and> bn' = b1 \<and> cs = cs0 @ cs1"
        by (subst (asm) batchLoop.simps) simp
      have last: "\<not> bn + 1 < batchEnd \<Longrightarrow> bn + 1 = batchEnd"
        using True unat_succ_less[OF True]
        by (simp add: word_less_nat_alt word_unat_eq_iff)
      have "firstFailure nd ctxDone (blockRange bn batchEnd) = (r1, cs0 @ cs1)"
        using ih blk None by (simp add: blockRange_Cons[OF True])
      moreover have "r1 = None \<longrightarrow> b1 = batchEnd"
        using ih last by (cases "bn + 1 < batchEnd") simp_all
      ultimately show ?thesis using res True by simp
    qed
  qed
qed

lemma rangeLoop_stuck_aux:
  "rangeLoop nd ctxDone bn blockTo = Some y \<Longrightarrow> \<not> (bn < blockTo \<and> min (bn + 10) blockTo \<le> bn)"
proof (induction rule: rangeLoop.raw_induct[rotated 1, consumes 1])
  case (1 f nd ctxDone bn blockTo y)
  show ?case
  proof
    assume stuck: "bn < blockTo \<and> min (bn + 10) blockTo \<le> bn"
    then have "\<not> bn < min (bn + 10) blockTo"
      by (simp only: not_less)
    then have "batchLoop nd ctxDone bn (min (bn + 10) blockTo) = (None, bn, [])"
      by (subst batchLoop.simps) (simp only: if_False)
    with stuck "1.hyps" obtain y' where "f nd ctxDone bn blockTo = Some y'"
      by (auto simp: Let_def split: Option.bind_splits)
    from "1.IH"[OF this] stuck show False by simp
  qed
qed

lemma rangeLoop_stuck:
  "bn < blockTo \<Longrightarrow> min (bn + 10) blockTo \<le> bn \<Longrightarrow> rangeLoop nd ctxDone bn blockTo = None"
  using rangeLoop_stuck_aux[of nd ctxDone bn blockTo] by (cases "rangeLoop nd ctxDone bn blockTo") auto

lemma rangeLoop_spec:
  "unat blockTo \<le> 2 ^ 64 - 10 \<Longrightarrow>
     rangeLoop nd ctxDone bn blockTo = Some (firstFailure nd ctxDone (blockRange bn blockTo))"
proof (induction "unat blockTo - unat bn" arbitrary: bn rule: less_induct)
  case less
  show ?case
  proof (cases "bn < blockTo")
    case False
    then show ?thesis
      by (subst rangeLoop.simps) (simp add: blockRange_Nil)
  next
    case True
    define batchEnd where "batchEnd = min (bn + 10) blockTo"
    from True have lt: "unat bn < unat blockTo" by (simp add: word_less_nat_alt)
    with less.prems have plus: "unat (bn + 10) = unat bn + 10"
      by (simp add: unat_word_ariths)
    have be: "unat batchEnd = min (unat bn + 10) (unat blockTo)"
      using plus by (simp add: batchEnd_def min_def word_le_nat_alt)
    with lt have b1: "bn < batchEnd" and b2: "batchEnd \<le> blockTo"
      by (simp_all add: word_less_nat_alt word_le_nat_alt)
    obtain r b cs where bl: "batchLoop nd ctxDone bn batchEnd = (r, b, cs)"
      by (cases "batchLoop nd ctxDone bn batchEnd") auto
    from batchLoop_spec[OF bl] b1 have ff: "firstFailure nd ctxDone (blockRange bn batchEnd) = (r, cs)"
      and fin: "r = None \<Longrightarrow> b = batchEnd" by simp_all
    have app: "blockRange bn blockTo = blockRange bn batchEnd @ blockRange batchEnd blockTo"
      using blockRange_append[of bn batchEnd blockTo] b1 b2 by simp
    show ?thesis
    proof (cases r)
      case (Some e)
      with True bl ff show ?thesis
        by (subst rangeLoop.simps) (simp add: batchEnd_def[symmetric] app firstFailure_append)
    next
      case None
      from be lt have "unat blockTo - unat batchEnd < unat blockTo - unat bn" by simp
      from less.hyps[OF this less.prems]
      have "rangeLoop nd ctxDone batchEnd blockTo =
              Some (firstFailure nd ctxDone (blockRange batchEnd blockTo))" .
      with True bl ff None fin show ?thesis
        by (subst rangeLoop.simps)
           (simp add: batchEnd_def[symmetric] app firstFailure_append split: prod.splits)
    qed
  qed
qed

section \<open>Evaluating the test doubles\<close>

text \<open>The equations that evaluate a block check on a node given by a table.\<close>

lemmas eval_defs = checkBlock_def checkLogs.simps checkLog_def Let_def tableNode_def tableReply_def
  inPlaceCell_def inPlaceTopic_def neverDone_def noDuplicates_unfold findRepeat.simps

lemma block5_eval:
  "checkBlock node5 neverDone 5 =
     (Some (DupAtBlock 5 (duplicated_log_index 0)), [getLogsNoFilters 5 5])"
  by (simp add: eval_defs node5_def log5_def)

lemma block4_eval: "checkBlock node5 neverDone 4 = (None, [getLogsNoFilters 4 4])"
  by (simp add: eval_defs node5_def)

lemma blockRange_4_7: "blockRange 4 7 = [4, 5, 6]"
  by (simp add: blockRange_def upt_rec)

lemma rangeLoop_empty: "rangeLoop nd ctxDone b b = Some (None, [])"
  by (subst rangeLoop.simps) simp

section \<open>The block check: completeness, skipping and failures\<close>




text \<open>Block 6 of the spec's scenario, where the only entry is the first.\<close>

lemma block6_first_entry:
  "checkBlock node6 neverDone 6 =
     (Some (AccountNotIndexed 6 11), [getLogsNoFilters 6 6, getLogs 6 6 11])"
  by (simp add: eval_defs node6_def log6_def)

text \<open>
  A reply decoded in place over cells still to be visited: in block 8 the reply to the
  filter by \<open>0xA\<close> puts the third entry into the second cell, the loop then finds \<open>0xA\<close>
  in both remaining cells, and the check succeeds without a request for \<open>0xB\<close>.
\<close>

lemma block8_overwritten:
  "logsReply node8 (getLogsNoFilters 8 8) = Result [log8a, log8b, log8c] \<and>
   Address log8b = 11 \<and>
   checkLog node8 8 [getLogsNoFilters 8 8] [log8a, log8b, log8c] 0 \<lparr>sawAddr = {}, sawTopic = {}\<rparr> =
     (None, \<lparr>sawAddr = {10}, sawTopic = {}\<rparr>, [log8a, log8c, log8c], [getLogs 8 8 10]) \<and>
   checkBlock node8 neverDone 8 = (None, [getLogsNoFilters 8 8, getLogs 8 8 10])"
  by (simp add: eval_defs node8_def log8a_def log8b_def log8c_def)




text \<open>
  A reply decoded in place under \<^verbatim>\<open>l.Topics\<close>: in block 9 the entry has topic \<open>0x9\<close>,
  the reply to the filter by its address holds an entry with topic \<open>0x8\<close>, and the
  topic-filtered request is sent for \<open>0x8\<close>.
\<close>

lemma block9_topic_overwritten:
  "logsReply node9 (getLogsNoFilters 9 9) = Result [log9a] \<and>
   Topics log9a = [9] \<and>
   logsReply node9 (getLogs 9 9 10) = Result [log9b] \<and>
   Topics log9b = [8] \<and>
   checkBlock node9 neverDone 9 =
     (None, [getLogsNoFilters 9 9, getLogs 9 9 10, getLogs1 9 9 10 8])"
  by (simp add: eval_defs node9_def log9a_def log9b_def)

text \<open>
  Claim C7, as stated, fails: its scenario does not say in which order the two entries
  are returned, and in one of the two orders a single filtered request is sent. Amended
  claim C7: in the requests of one block's check, at most one is filtered by a given
  address alone and at most one carries a given topic, whatever the unfiltered result
  is; in the block-7 scenario with the entry carrying topic \<open>0x9\<close> returned first and the
  entry without topics second, the check succeeds after the unfiltered request and
  exactly two filtered ones.
\<close>

theorem filtered_queries_once:
  "length (filter (isAddrQuery a) (snd (checkBlock nd ctxDone bn))) \<le> 1 \<and>
   length (filter (isTopicQuery h) (snd (checkBlock nd ctxDone bn))) \<le> 1 \<and>
   checkBlock node7 neverDone 7 =
     (None, [getLogsNoFilters 7 7, getLogs 7 7 12, getLogs1 7 7 12 9])"
proof -
  have "checkBlock node7 neverDone 7 =
     (None, [getLogsNoFilters 7 7, getLogs 7 7 12, getLogs1 7 7 12 9])"
    by (simp add: eval_defs node7_def log7a_def log7b_def)
  with checkBlock_filtered_once[of a nd ctxDone bn h] show ?thesis by simp
qed

text \<open>
  The same two entries returned in the other order: the entry with the topic is
  skipped (its address was met), only the address-filtered request is sent, and the
  check succeeds.
\<close>

theorem filtered_queries_once_counterexample:
  "logsReply node7r (getLogsNoFilters 7 7) = Result [log7b, log7a] \<and>
   Address log7b = 12 \<and> Topics log7b = [] \<and>
   Address log7a = 12 \<and> Topics log7a = [9] \<and>
   logsReply node7r (getLogs 7 7 12) = Result [log7b, log7a] \<and>
   logsReply node7r (getLogs1 7 7 12 9) = Result [log7a] \<and>
   checkBlock node7r neverDone 7 = (None, [getLogsNoFilters 7 7, getLogs 7 7 12])"
  by (simp add: eval_defs node7r_def log7a_def log7b_def)

text \<open>
  Claim C8. If the unfiltered result of a block has a repeated log-index value, the
  block check fails with the duplicate-index failure naming the block and a value that
  occurs at least twice, and the unfiltered request is the only request of that block.
\<close>

theorem duplicate_index_stops_block:
  assumes "logsReply nd (getLogsNoFilters bn bn) = Result ls" and "\<not> distinct (map Index ls)"
  shows "\<exists>v. checkBlock nd ctxDone bn =
            (Some (DupAtBlock bn (duplicated_log_index v)), [getLogsNoFilters bn bn]) \<and>
          2 \<le> count_list (map Index ls) v"
proof -
  from noDuplicates_spec[of ls] assms(2) obtain v
    where "noDuplicates ls = Some (duplicated_log_index v)" "2 \<le> count_list (map Index ls) v"
    by auto
  with assms(1) show ?thesis
    by (auto simp: checkBlock_def Let_def)
qed

text \<open>Block 5 of the spec's scenario: index 0 twice.\<close>

theorem duplicate_index_stops_block_witness:
  "logsReply node5 (getLogsNoFilters 5 5) = Result [log5, log5] \<and>
   \<not> distinct (map Index [log5, log5]) \<and>
   checkBlock node5 neverDone 5 =
     (Some (DupAtBlock 5 (duplicated_log_index 0)), [getLogsNoFilters 5 5]) \<and>
   (\<exists>v. checkBlock node5 neverDone 5 =
            (Some (DupAtBlock 5 (duplicated_log_index v)), [getLogsNoFilters 5 5]) \<and>
          2 \<le> count_list (map Index [log5, log5]) v)"
proof -
  have h1: "logsReply node5 (getLogsNoFilters 5 5) = Result [log5, log5]"
    by (simp add: node5_def tableNode_def tableReply_def)
  have h2: "\<not> distinct (map Index [log5, log5])"
    by simp
  have v: "checkBlock node5 neverDone 5 =
     (Some (DupAtBlock 5 (duplicated_log_index 0)), [getLogsNoFilters 5 5])"
    by (rule block5_eval)
  from h1 h2 v duplicate_index_stops_block[OF h1 h2, of neverDone] show ?thesis
    by (intro conjI)
qed

text \<open>
  Claim C9, as stated, fails: the two messages for a failed log query have no block
  number among their arguments. Amended claim C9: for every block \<open>bn\<close> and every request
  sent while checking \<open>bn\<close>, a transport error makes the block check fail with the failure
  carrying that error, and an error response makes it fail with the failure carrying
  the response's code and message; neither failure carries the block number.
\<close>

theorem query_error_fails_block:
  assumes "q \<in> set (snd (checkBlock nd ctxDone bn))"
  shows "(logsReply nd q = CallErr e \<longrightarrow>
            fst (checkBlock nd ctxDone bn) = Some (CouldNotGet e) \<and>
            failureBlock (CouldNotGet e) = None) \<and>
         (logsReply nd q = RespError c m \<longrightarrow>
            fst (checkBlock nd ctxDone bn) = Some (ErrorGetting c m) \<and>
            failureBlock (ErrorGetting c m) = None)"
  using checkBlock_replies[OF assms, of e c m] by simp

text \<open>
  A transport error of the unfiltered query of block 5, and an error response to the
  address-filtered query of block 6.
\<close>

theorem query_error_fails_block_witness:
  "getLogsNoFilters 5 5 \<in> set (snd (checkBlock nodeTimeout neverDone 5)) \<and>
   logsReply nodeTimeout (getLogsNoFilters 5 5) = CallErr ''timeout'' \<and>
   fst (checkBlock nodeTimeout neverDone 5) = Some (CouldNotGet ''timeout'') \<and>
   failureBlock (CouldNotGet ''timeout'') = None \<and>
   getLogs 6 6 11 \<in> set (snd (checkBlock nodeRpcError neverDone 6)) \<and>
   logsReply nodeRpcError (getLogs 6 6 11) = RespError (-32000) ''query timeout'' \<and>
   fst (checkBlock nodeRpcError neverDone 6) = Some (ErrorGetting (-32000) ''query timeout'') \<and>
   failureBlock (ErrorGetting (-32000) ''query timeout'') = None"
proof -
  have h1: "getLogsNoFilters 5 5 \<in> set (snd (checkBlock nodeTimeout neverDone 5))"
    by (simp add: eval_defs nodeTimeout_def)
  have r1: "logsReply nodeTimeout (getLogsNoFilters 5 5) = CallErr ''timeout''"
    by (simp add: nodeTimeout_def tableNode_def tableReply_def)
  have h2: "getLogs 6 6 11 \<in> set (snd (checkBlock nodeRpcError neverDone 6))"
    by (simp add: eval_defs nodeRpcError_def log6_def)
  have r2: "logsReply nodeRpcError (getLogs 6 6 11) = RespError (-32000) ''query timeout''"
    by (simp add: nodeRpcError_def tableNode_def tableReply_def)
  from query_error_fails_block[OF h1, of "''timeout''"] r1
  have c1: "fst (checkBlock nodeTimeout neverDone 5) = Some (CouldNotGet ''timeout'') \<and>
            failureBlock (CouldNotGet ''timeout'') = None"
    by blast
  from query_error_fails_block[OF h2, of _ "-32000" "''query timeout''"] r2
  have c2: "fst (checkBlock nodeRpcError neverDone 6) = Some (ErrorGetting (-32000) ''query timeout'') \<and>
            failureBlock (ErrorGetting (-32000) ''query timeout'') = None"
    by blast
  from h1 r1 c1 h2 r2 c2 show ?thesis
    by (intro conjI) (erule conjunct1 conjunct2 | assumption)+
qed

text \<open>
  The unfiltered query of block 5 times out: the failure is the one the same time-out
  gives for block 6, and it does not hold the number 5.
\<close>

theorem query_error_fails_block_counterexample:
  "logsReply nodeTimeout (getLogsNoFilters 5 5) = CallErr ''timeout'' \<and>
   fst (checkBlock nodeTimeout neverDone 5) = Some (CouldNotGet ''timeout'') \<and>
   failureBlock (CouldNotGet ''timeout'') \<noteq> Some 5 \<and>
   fst (checkBlock nodeTimeout neverDone 6) = fst (checkBlock nodeTimeout neverDone 5)"
  by (simp add: eval_defs nodeTimeout_def)

section \<open>The range driver: empty range, coverage and fail-fast\<close>

text \<open>
  Claim C4, as stated, fails: the entry point first calls \<^verbatim>\<open>eth_blockNumber\<close> (line
  153) and returns an error if that call fails. Amended claim C4: when \<open>blockFrom\<close> equals
  \<open>blockTo\<close> the entry point returns after exactly one request, the \<^verbatim>\<open>eth_blockNumber\<close>
  one, without any log query, and it returns success exactly when that request was
  answered by a result.
\<close>

theorem empty_range:
  "\<exists>r. EthGetLogsInvariants nd ctxDone b b = Some (r, [blockNumber]) \<and>
        (r = None) = (\<exists>n. blockNumberReply nd = Result n)"
  by (cases "blockNumberReply nd") (simp_all add: EthGetLogsInvariants_def rangeLoop_empty)

text \<open>
  For \<open>blockFrom = 0\<close> and \<open>blockTo = 0\<close>: one request is sent even when the run succeeds,
  and the run fails when the node does not answer it.
\<close>

theorem empty_range_counterexample:
  "EthGetLogsInvariants (tableNode []) neverDone 0 0 = Some (None, [blockNumber]) \<and>
   EthGetLogsInvariants nodeDown neverDone 0 0 =
     Some (Some (CouldNotGetBlockNumber ''connection refused''), [blockNumber])"
  by (simp add: EthGetLogsInvariants_def nodeDown_def tableNode_def rangeLoop_empty)

text \<open>
  Claim C5 at \<open>blockFrom = 2 ^ 64 - 5\<close>, \<open>blockTo = 2 ^ 64 - 1\<close>: \<^verbatim>\<open>bn+10\<close> wraps around to 5,
  so \<^verbatim>\<open>batchEnd\<close> is 5, the inner loop does not run and \<^verbatim>\<open>bn\<close> stays: the driver never
  returns and checks none of the four blocks of the interval.
\<close>

theorem range_overflow_never_returns:
  "rangeLoop nd ctxDone 18446744073709551611 18446744073709551615 = None \<and>
   EthGetLogsInvariants (tableNode tab) ctxDone 18446744073709551611 18446744073709551615 = None"
proof -
  have "rangeLoop nd ctxDone 18446744073709551611 18446744073709551615 = None" for nd
    by (rule rangeLoop_stuck) simp_all
  then show ?thesis
    by (simp add: EthGetLogsInvariants_def tableNode_def)
qed

lemma firstFailure_pass_iff:
  "fst (firstFailure nd ctxDone bs) = None \<longleftrightarrow>
     (\<forall>b \<in> set bs. fst (checkBlock nd ctxDone b) = None)"
  by (induction bs) (auto split: prod.splits option.splits)

lemma firstFailure_pass_calls:
  "fst (firstFailure nd ctxDone bs) = None \<Longrightarrow>
     snd (firstFailure nd ctxDone bs) = concat (map (\<lambda>b. snd (checkBlock nd ctxDone b)) bs)"
  by (induction bs) (auto split: prod.splits option.splits)

lemma firstFailure_fail:
  "fst (firstFailure nd ctxDone bs) = Some e \<Longrightarrow>
     \<exists>k < length bs.
       (\<forall>j < k. fst (checkBlock nd ctxDone (bs ! j)) = None) \<and>
       fst (checkBlock nd ctxDone (bs ! k)) = Some e \<and>
       snd (firstFailure nd ctxDone bs) =
         concat (map (\<lambda>b. snd (checkBlock nd ctxDone b)) (take (Suc k) bs))"
proof (induction bs)
  case Nil
  then show ?case by simp
next
  case (Cons b bs)
  obtain r0 cs0 where blk: "checkBlock nd ctxDone b = (r0, cs0)"
    by (cases "checkBlock nd ctxDone b") auto
  show ?case
  proof (cases r0)
    case (Some e')
    with blk Cons.prems show ?thesis
      by (intro exI[of _ 0]) simp
  next
    case None
    obtain r1 cs1 where rest: "firstFailure nd ctxDone bs = (r1, cs1)"
      by (cases "firstFailure nd ctxDone bs") auto
    with blk None Cons.prems have "fst (firstFailure nd ctxDone bs) = Some e" by simp
    from Cons.IH[OF this] obtain k where k: "k < length bs"
      "\<forall>j < k. fst (checkBlock nd ctxDone (bs ! j)) = None"
      "fst (checkBlock nd ctxDone (bs ! k)) = Some e"
      "snd (firstFailure nd ctxDone bs) =
         concat (map (\<lambda>b. snd (checkBlock nd ctxDone b)) (take (Suc k) bs))"
      by blast
    have "\<forall>j < Suc k. fst (checkBlock nd ctxDone ((b # bs) ! j)) = None"
    proof (intro allI impI)
      fix j assume "j < Suc k"
      then show "fst (checkBlock nd ctxDone ((b # bs) ! j)) = None"
        using k(2) blk None by (cases j) simp_all
    qed
    with k blk None rest show ?thesis
      by (intro exI[of _ "Suc k"]) simp
  qed
qed

lemma range_returns:
  assumes "blockNumberReply nd = Result n" and "unat blockTo \<le> 2 ^ 64 - 10"
  shows "EthGetLogsInvariants nd ctxDone blockFrom blockTo =
           Some (fst (firstFailure nd ctxDone (blockRange blockFrom blockTo)),
                 blockNumber # snd (firstFailure nd ctxDone (blockRange blockFrom blockTo)))"
  using assms(1) rangeLoop_spec[OF assms(2), of nd ctxDone blockFrom]
  by (simp add: EthGetLogsInvariants_def split: prod.splits)

text \<open>
  Coverage when \<^verbatim>\<open>bn+10\<close> cannot wrap around: a successful run sends the unfiltered
  request of every block number of the interval, once each and in ascending order, and
  the interval has \<open>blockTo - blockFrom\<close> distinct block numbers; from 100 to 130 that is 30.
\<close>

lemma checkLog_no_block_query:
  "checkLog nd bn h cells i s = (r, s', cells', cs) \<Longrightarrow> filter isBlockQuery cs = []"
  by (auto simp: checkLog_def Let_def split: if_splits reply.splits option.splits)

lemma checkLogs_no_block_query:
  "checkLogs nd bn h cells n i s = (r, s', cells', cs) \<Longrightarrow> filter isBlockQuery cs = []"
proof (induction "n - i" arbitrary: i h cells s r s' cells' cs)
  case 0
  then have "\<not> i < n" by simp
  with "0.prems" show ?case by (simp add: checkLogs_done)
next
  case (Suc k)
  then have lt: "i < n" by simp
  from Suc.prems lt show ?case
  proof (cases rule: checkLogs_step_elim)
    case (fail e)
    then show ?thesis using checkLog_no_block_query by blast
  next
    case (pass s1 cells1 cs1 cs2)
    have "k = n - (i + 1)" using Suc.hyps(2) by simp
    with checkLog_no_block_query[OF pass(1)] Suc.hyps(1)[OF _ pass(2)] pass(3) show ?thesis by simp
  qed
qed

lemma checkBlock_block_query:
  "filter isBlockQuery (snd (checkBlock nd ctxDone bn)) = [getLogsNoFilters bn bn]"
proof -
  let ?q = "getLogsNoFilters bn bn"
  obtain cs where cs: "snd (checkBlock nd ctxDone bn) = ?q # cs"
    and d: "cs = [] \<or> (\<exists>ls r s cells. logsReply nd ?q = Result ls \<and>
         noDuplicates ls = None \<and>
         checkLogs nd bn [?q] ls (length ls) 0 \<lparr>sawAddr = {}, sawTopic = {}\<rparr> = (r, s, cells, cs))"
    using checkBlock_calls by blast
  from d have "filter isBlockQuery cs = []"
    using checkLogs_no_block_query by auto
  with cs show ?thesis by simp
qed

lemma range_coverage:
  assumes "blockNumberReply nd = Result n" and "unat blockTo \<le> 2 ^ 64 - 10"
    and "EthGetLogsInvariants nd ctxDone blockFrom blockTo = Some (None, cs)"
  shows "filter isBlockQuery cs = map (\<lambda>b. getLogsNoFilters b b) (blockRange blockFrom blockTo)"
    and "length (blockRange blockFrom blockTo) = unat blockTo - unat blockFrom"
    and "distinct (blockRange blockFrom blockTo)"
proof -
  let ?bs = "blockRange blockFrom blockTo"
  from assms(3) range_returns[OF assms(1,2), of ctxDone blockFrom]
  have r: "fst (firstFailure nd ctxDone ?bs) = None"
    and c: "cs = blockNumber # snd (firstFailure nd ctxDone ?bs)" by simp_all
  have "filter isBlockQuery (concat (map (\<lambda>b. snd (checkBlock nd ctxDone b)) bs)) =
          map (\<lambda>b. getLogsNoFilters b b) bs" for bs
    by (induction bs) (simp_all add: checkBlock_block_query)
  with firstFailure_pass_calls[OF r] c
  show "filter isBlockQuery cs = map (\<lambda>b. getLogsNoFilters b b) ?bs" by simp
  show "length ?bs = unat blockTo - unat blockFrom" by (rule length_blockRange)
  show "distinct ?bs" by (rule distinct_blockRange)
qed

lemma range_100_130:
  "length (blockRange 100 130) = 30 \<and> distinct (blockRange 100 130)"
  by (simp add: length_blockRange distinct_blockRange)

text \<open>
  Claim C6, as stated, fails: the run also fails when the preliminary
  \<^verbatim>\<open>eth_blockNumber\<close> call fails or the context is done, whatever the blocks are.
  Amended claim C6: if the \<^verbatim>\<open>eth_blockNumber\<close> call succeeds (and \<open>blockTo\<close> is at most
  \<open>2 ^ 64 - 10\<close>), the entry point returns; it returns success exactly when the check of
  every block of \<open>[blockFrom, blockTo)\<close> passes with the context not done, and then it has
  sent the requests of all these blocks in order; otherwise it returns the failure of the
  first block whose check fails, and the requests sent are those of the blocks up to and
  including that one: no later block is checked.
\<close>

theorem fail_fast:
  assumes "blockNumberReply nd = Result n" and "unat blockTo \<le> 2 ^ 64 - 10"
  shows "\<exists>r cs. EthGetLogsInvariants nd ctxDone blockFrom blockTo = Some (r, blockNumber # cs) \<and>
     ((r = None) = (\<forall>b \<in> set (blockRange blockFrom blockTo). fst (checkBlock nd ctxDone b) = None)) \<and>
     (r = None \<longrightarrow>
        cs = concat (map (\<lambda>b. snd (checkBlock nd ctxDone b)) (blockRange blockFrom blockTo))) \<and>
     (\<forall>e. r = Some e \<longrightarrow>
        (\<exists>k < length (blockRange blockFrom blockTo).
           (\<forall>j < k. fst (checkBlock nd ctxDone (blockRange blockFrom blockTo ! j)) = None) \<and>
           fst (checkBlock nd ctxDone (blockRange blockFrom blockTo ! k)) = Some e \<and>
           cs = concat (map (\<lambda>b. snd (checkBlock nd ctxDone b))
                          (take (Suc k) (blockRange blockFrom blockTo)))))"
proof -
  let ?bs = "blockRange blockFrom blockTo"
  let ?r = "fst (firstFailure nd ctxDone ?bs)"
  let ?cs = "snd (firstFailure nd ctxDone ?bs)"
  have ret: "EthGetLogsInvariants nd ctxDone blockFrom blockTo = Some (?r, blockNumber # ?cs)"
    using assms by (rule range_returns)
  show ?thesis
  proof (intro exI[of _ ?r] exI[of _ ?cs] conjI allI impI)
    show "EthGetLogsInvariants nd ctxDone blockFrom blockTo = Some (?r, blockNumber # ?cs)"
      by (rule ret)
    show "(?r = None) = (\<forall>b \<in> set ?bs. fst (checkBlock nd ctxDone b) = None)"
      by (rule firstFailure_pass_iff)
    show "?cs = concat (map (\<lambda>b. snd (checkBlock nd ctxDone b)) ?bs)" if "?r = None"
      using that by (rule firstFailure_pass_calls)
    show "\<exists>k < length ?bs.
           (\<forall>j < k. fst (checkBlock nd ctxDone (?bs ! j)) = None) \<and>
           fst (checkBlock nd ctxDone (?bs ! k)) = Some e \<and>
           ?cs = concat (map (\<lambda>b. snd (checkBlock nd ctxDone b)) (take (Suc k) ?bs))"
      if "?r = Some e" for e
      using that by (rule firstFailure_fail)
  qed
qed

text \<open>
  From block 4 to block 7 on a node whose block 5 has a repeated log index: block 4
  passes, block 5 fails, block 6 is not queried.
\<close>

theorem fail_fast_witness:
  "blockNumberReply node5 = Result 1000 \<and> unat (7 :: u64) \<le> 2 ^ 64 - 10 \<and>
   EthGetLogsInvariants node5 neverDone 4 7 =
     Some (Some (DupAtBlock 5 (duplicated_log_index 0)),
           [blockNumber, getLogsNoFilters 4 4, getLogsNoFilters 5 5]) \<and>
   (\<exists>r cs. EthGetLogsInvariants node5 neverDone 4 7 = Some (r, blockNumber # cs) \<and>
     ((r = None) = (\<forall>b \<in> set (blockRange 4 7). fst (checkBlock node5 neverDone b) = None)) \<and>
     (r = None \<longrightarrow>
        cs = concat (map (\<lambda>b. snd (checkBlock node5 neverDone b)) (blockRange 4 7))) \<and>
     (\<forall>e. r = Some e \<longrightarrow>
        (\<exists>k < length (blockRange 4 7).
           (\<forall>j < k. fst (checkBlock node5 neverDone (blockRange 4 7 ! j)) = None) \<and>
           fst (checkBlock node5 neverDone (blockRange 4 7 ! k)) = Some e \<and>
           cs = concat (map (\<lambda>b. snd (checkBlock node5 neverDone b))
                          (take (Suc k) (blockRange 4 7))))))"
proof -
  have h1: "blockNumberReply node5 = Result 1000"
    by (simp add: node5_def tableNode_def tableReply_def)
  have h2: "unat (7 :: u64) \<le> 2 ^ 64 - 10"
    by simp
  have v: "EthGetLogsInvariants node5 neverDone 4 7 =
     Some (Some (DupAtBlock 5 (duplicated_log_index 0)),
           [blockNumber, getLogsNoFilters 4 4, getLogsNoFilters 5 5])"
    by (simp add: range_returns[OF h1 h2] blockRange_4_7 block4_eval block5_eval)
  from h1 h2 v fail_fast[OF h1 h2, of neverDone 4] show ?thesis
    by (intro conjI)
qed

text \<open>
  The only block of \<open>[0, 1)\<close> passes its check, and the run fails because the
  \<^verbatim>\<open>eth_blockNumber\<close> call failed.
\<close>

theorem fail_fast_counterexample:
  "blockRange 0 1 = [0] \<and>
   checkBlock nodeDown neverDone 0 = (None, [getLogsNoFilters 0 0]) \<and>
   EthGetLogsInvariants nodeDown neverDone 0 1 =
     Some (Some (CouldNotGetBlockNumber ''connection refused''), [blockNumber])"
  by (simp add: blockRange_def eval_defs nodeDown_def EthGetLogsInvariants_def)

text \<open>
  Block 7 passes all invariants, and the run over \<open>[7, 8)\<close> returns the context's error
  when the context is done at the \<^verbatim>\<open>select\<close> of block 7.
\<close>

lemma run_cancelled:
  "checkBlock node7 neverDone 7 =
     (None, [getLogsNoFilters 7 7, getLogs 7 7 12, getLogs1 7 7 12 9]) \<and>
   EthGetLogsInvariants node7 doneAt7 7 8 =
     Some (Some (CtxErr Canceled),
           [blockNumber, getLogsNoFilters 7 7, getLogs 7 7 12, getLogs1 7 7 12 9])"
proof -
  have h1: "blockNumberReply node7 = Result 1000"
    by (simp add: node7_def tableNode_def tableReply_def)
  have h2: "unat (8 :: u64) \<le> 2 ^ 64 - 10"
    by simp
  have r: "blockRange 7 8 = [7]"
    by (simp add: blockRange_def upt_rec)
  have c: "checkBlock node7 doneAt7 7 =
     (Some (CtxErr Canceled), [getLogsNoFilters 7 7, getLogs 7 7 12, getLogs1 7 7 12 9])"
    by (simp add: eval_defs node7_def log7a_def log7b_def doneAt7_def)
  have p: "checkBlock node7 neverDone 7 =
     (None, [getLogsNoFilters 7 7, getLogs 7 7 12, getLogs1 7 7 12 9])"
    by (simp add: eval_defs node7_def log7a_def log7b_def)
  show ?thesis
    by (simp add: range_returns[OF h1 h2] r c p)
qed

end
